theory Spec2Isabelle
  imports Complex_Main "HOL-Library.Sublist" "HOL-Library.Multiset" "HOL-Library.Log_Nat"
begin

section \<open>JavaScript values used by the client code\<close>

text \<open>
  A JavaScript number is an IEEE 754 double: a finite value, kept as the real number it
  stands for (\<open>Num 0\<close> is \<open>+0\<close>), the negative zero, an infinity, or \<open>NaN\<close>.
\<close>

datatype jsnum = Num real | NegZero | PosInfinity | NegInfinity | NaN

datatype js_error = TypeError

text \<open>
  Rounding a real number to the nearest double, ties to even. A double has 53 significant
  bits; \<open>exponent_of x\<close> is the power of two at or below \<open>\<bar>x\<bar>\<close>, and the spacing
  \<open>ulp x\<close> of the doubles around \<open>x\<close> does not fall below that of the subnormal
  numbers, \<open>2^-1074\<close>.
\<close>

definition exponent_of :: "real \<Rightarrow> int" where
  "exponent_of x =
     (if 1 \<le> \<bar>x\<bar> then bitlen \<lfloor>\<bar>x\<bar>\<rfloor> - 1 else - bitlen (\<lceil>1 / \<bar>x\<bar>\<rceil> - 1))"

definition ulp :: "real \<Rightarrow> real" where
  "ulp x = 2 powi (max (exponent_of x) (- 1022) - 52)"

definition round_half_even :: "real \<Rightarrow> int" where
  "round_half_even y =
     (let f = \<lfloor>y\<rfloor>; d = y - of_int f
      in if d < 1 / 2 then f else if 1 / 2 < d then f + 1 else if even f then f else f + 1)"

definition round_double :: "real \<Rightarrow> real" where
  "round_double x = of_int (round_half_even (x / ulp x)) * ulp x"

text \<open>
  The double that an operation returns when its exact result is \<open>x\<close>: the rounded value,
  an infinity when that is beyond the largest double, and a zero with the sign of \<open>x\<close>
  when it is zero.
\<close>

definition to_double :: "real \<Rightarrow> jsnum" where
  "to_double x =
     (let r = round_double x
      in if 2 ^ 1024 \<le> \<bar>r\<bar> then (if 0 < x then PosInfinity else NegInfinity)
         else if r = 0 then (if x < 0 then NegZero else Num 0)
         else Num r)"

fun js_is_zero :: "jsnum \<Rightarrow> bool" where
  "js_is_zero (Num x) = (x = 0)"
| "js_is_zero NegZero = True"
| "js_is_zero _ = False"

fun js_is_infinite :: "jsnum \<Rightarrow> bool" where
  "js_is_infinite PosInfinity = True"
| "js_is_infinite NegInfinity = True"
| "js_is_infinite _ = False"

text \<open>The sign bit of a number that is not \<open>NaN\<close>.\<close>

fun js_is_negative :: "jsnum \<Rightarrow> bool" where
  "js_is_negative (Num x) = (x < 0)"
| "js_is_negative NegZero = True"
| "js_is_negative NegInfinity = True"
| "js_is_negative _ = False"

text \<open>The value of a finite number; it is read only where the number is finite.\<close>

fun js_value :: "jsnum \<Rightarrow> real" where
  "js_value (Num x) = x"
| "js_value _ = 0"

definition signed_zero :: "bool \<Rightarrow> jsnum" where
  "signed_zero negative = (if negative then NegZero else Num 0)"

definition signed_infinity :: "bool \<Rightarrow> jsnum" where
  "signed_infinity negative = (if negative then NegInfinity else PosInfinity)"

text \<open>The operator \<open>/\<close>.\<close>

definition js_div :: "jsnum \<Rightarrow> jsnum \<Rightarrow> jsnum" where
  "js_div x y =
     (let negative = (js_is_negative x \<noteq> js_is_negative y)
      in if x = NaN \<or> y = NaN then NaN
         else if js_is_infinite x then (if js_is_infinite y then NaN else signed_infinity negative)
         else if js_is_infinite y then signed_zero negative
         else if js_is_zero y then (if js_is_zero x then NaN else signed_infinity negative)
         else if js_is_zero x then signed_zero negative
         else to_double (js_value x / js_value y))"




text \<open>\<open>Math.ceil\<close>: the special values are returned as they are, and a value between
  \<open>-1\<close> and \<open>0\<close> gives \<open>-0\<close>.\<close>

fun Math_ceil :: "jsnum \<Rightarrow> jsnum" where
  "Math_ceil (Num x) = (if \<lceil>x\<rceil> = 0 \<and> x < 0 then NegZero else Num (of_int \<lceil>x\<rceil>))"
| "Math_ceil NegZero = NegZero"
| "Math_ceil PosInfinity = PosInfinity"
| "Math_ceil NegInfinity = NegInfinity"
| "Math_ceil NaN = NaN"





text \<open>
  Three properties that the proofs follow through the arithmetic: being a whole multiple
  of the smallest positive double; being \<open>Infinity\<close> or such a multiple that is not
  negative; and being a number whose finite value, if it has one, is such a multiple.
\<close>

definition on_grid :: "real \<Rightarrow> bool" where
  "on_grid x \<longleftrightarrow> of_int \<lfloor>x * 2 ^ 1074\<rfloor> = x * 2 ^ 1074"






section \<open>Report/Table.js\<close>

text \<open>
  \<open>propTypes.workflowId\<close>: a workflow is addressed by its numeric id or by a secret
  id, which is a string.
\<close>

datatype workflow_id = WorkflowId nat | SecretId string


record column =
  column_name :: string
  column_type :: string

text \<open>The props of \<open>Table\<close>, as \<open>Table.propTypes\<close> declares them; \<open>columns\<close> may in
  fact be \<open>null\<close> or \<open>undefined\<close>.\<close>

record table_props =
  workflowIdOrSecretId :: workflow_id
  stepSlug :: string
  deltaId :: int
  nRows :: jsnum
  columns :: "column list option"
  nRowsPerTile :: jsnum
  nColumnsPerTile :: jsnum

text \<open>
  The first two statements of \<open>Table\<close>: the pair handed to \<open>useTiles\<close>. Neither
  statement checks a tile size; reading \<open>columns.length\<close> throws a \<open>TypeError\<close> when
  \<open>columns\<close> is \<open>null\<close> or \<open>undefined\<close>.
\<close>

definition Table_tileCount :: "table_props \<Rightarrow> js_error + (jsnum \<times> jsnum)" where
  "Table_tileCount p =
     (let nTileRows = Math_ceil (js_div (nRows p) (nRowsPerTile p))
      in case columns p of
           None \<Rightarrow> Inl TypeError
         | Some cs \<Rightarrow>
             Inr (nTileRows, Math_ceil (js_div (Num (of_nat (length cs))) (nColumnsPerTile p))))"




section \<open>The tile cache and fetch scheduler behind \<open>useTiles\<close>\<close>

text \<open>
  \<open>Table\<close> hands \<open>fetchTile\<close> and the grid size to the hook \<open>useTiles\<close> of
  \<open>../BigTable/useTiles\<close>, which is not among the source files. Its data model and
  its algorithm are therefore taken from the specification (sections 3, 4.3 and 4.4).
\<close>

text \<open>Modelled from the spec: TableAddress, \<open>{workflowIdOrSecretId, stepSlug, revisionId}\<close>;
  the type is missing with \<open>useTiles\<close>.\<close>

record table_address =
  addr_workflow :: workflow_id
  addr_stepSlug :: string
  revisionId :: int

text \<open>Modelled from the spec: TileCoordinate, \<open>{tileRow, tileColumn}\<close>, both non-negative
  integers.\<close>

type_synonym tile_coordinate = "nat \<times> nat"

text \<open>Modelled from the spec: the error taxonomy \<open>{NetworkError, BadResponse, ParseError}\<close>,
  normalised to \<open>FetchError\<close> at the fetcher boundary, and the fetcher's result
  \<open>TileData | FetchError\<close>.\<close>

datatype fetch_error = NetworkError | BadResponse | ParseError

datatype 'r fetch_result = TileData "'r list" nat nat | FetchError fetch_error

text \<open>Modelled from the spec: Tile, one of \<open>Unfetched\<close>, \<open>Pending(requestToken)\<close>,
  \<open>Loaded(rows, rowCount, columnCount)\<close>, \<open>Failed(reason)\<close>.\<close>

datatype 'r tile = Unfetched | Pending nat | Loaded "'r list" nat nat | Failed fetch_error

text \<open>Modelled from the spec: ViewportRange,
  \<open>{firstTileRow, lastTileRow, firstTileColumn, lastTileColumn}\<close>, both ends included.\<close>

record viewport_range =
  firstTileRow :: nat
  lastTileRow :: nat
  firstTileColumn :: nat
  lastTileColumn :: nat

text \<open>Modelled from the spec: the Sparse Tile Store of section 4.3, a mapping of populated
  coordinates to tile states in which an absent coordinate is implicitly \<open>Unfetched\<close>,
  with its operations \<open>get\<close>, \<open>set\<close>, \<open>reset\<close> (clears all tiles) and \<open>snapshot\<close>.\<close>

type_synonym 'r tile_store = "tile_coordinate \<rightharpoonup> 'r tile"

definition store_get :: "'r tile_store \<Rightarrow> tile_coordinate \<Rightarrow> 'r tile" where
  "store_get st c = (case st c of None \<Rightarrow> Unfetched | Some t \<Rightarrow> t)"

definition store_set :: "'r tile_store \<Rightarrow> tile_coordinate \<Rightarrow> 'r tile \<Rightarrow> 'r tile_store" where
  "store_set st c t = st(c \<mapsto> t)"

definition store_reset :: "'r tile_store \<Rightarrow> 'r tile_store" where
  "store_reset st = Map.empty"

definition snapshot :: "'r tile_store \<Rightarrow> (tile_coordinate \<rightharpoonup> 'r tile)" where
  "snapshot st = st"

text \<open>Modelled from the spec: one invocation of the Tile Fetcher makes one network call; the
  call is recorded with the address and coordinate it was made for and the request token
  the scheduler attached to it.\<close>

record fetch_call =
  call_address :: table_address
  call_coord :: tile_coordinate
  call_token :: nat

text \<open>Modelled from the spec: the state of the Viewport-Driven Scheduler of section 4.4: the
  address of the table, the store it alone mutates, the wanted range set by the rendering
  layer, the next request token of every coordinate (monotonically increasing per
  coordinate), and the network calls made so far, oldest first.\<close>

record 'r scheduler =
  address :: table_address
  store :: "'r tile_store"
  wanted :: "viewport_range option"
  next_token :: "tile_coordinate \<Rightarrow> nat"
  calls :: "fetch_call list"

definition init_scheduler :: "table_address \<Rightarrow> 'r scheduler" where
  "init_scheduler a =
     \<lparr>address = a, store = Map.empty, wanted = None, next_token = (\<lambda>c. 0), calls = []\<rparr>"

text \<open>Modelled from the spec: the tile coordinates within a range.\<close>

definition coords_in_range :: "viewport_range \<Rightarrow> tile_coordinate list" where
  "coords_in_range r =
     concat (map (\<lambda>i. map (\<lambda>j. (i, j)) [firstTileColumn r ..< Suc (lastTileColumn r)])
                 [firstTileRow r ..< Suc (lastTileRow r)])"

text \<open>Modelled from the spec: step 2 of the algorithm for one coordinate: mark it
  \<open>Pending\<close>, invoke the Tile Fetcher, and record the next token of that coordinate.\<close>

definition schedule :: "tile_coordinate \<Rightarrow> 'r scheduler \<Rightarrow> 'r scheduler" where
  "schedule c s =
     (let t = next_token s c
      in s\<lparr>store := store_set (store s) c (Pending t),
            next_token := (next_token s)(c := Suc t),
            calls := calls s @ [\<lparr>call_address = address s, call_coord = c, call_token = t\<rparr>]\<rparr>)"

text \<open>Modelled from the spec: the tests on a tile's state that the algorithm makes.\<close>

fun is_Unfetched :: "'r tile \<Rightarrow> bool" where
  "is_Unfetched Unfetched = True"
| "is_Unfetched _ = False"

fun is_Failed :: "'r tile \<Rightarrow> bool" where
  "is_Failed (Failed e) = True"
| "is_Failed _ = False"

fun is_Loaded :: "'r tile \<Rightarrow> bool" where
  "is_Loaded (Loaded rows rc cc) = True"
| "is_Loaded _ = False"

text \<open>Modelled from the spec: steps 1 and 2 of the algorithm, run on a store reset: the
  coordinates within the wanted range whose state is \<open>Unfetched\<close> are scheduled; tiles
  outside the range are left as they are (step 4).\<close>

definition reconcile :: "'r scheduler \<Rightarrow> 'r scheduler" where
  "reconcile s =
     (case wanted s of
        None \<Rightarrow> s
      | Some r \<Rightarrow> fold schedule
                    (filter (\<lambda>c. is_Unfetched (store_get (store s) c)) (coords_in_range r)) s)"

text \<open>Modelled from the spec: the range setter \<open>setWantedTileRange\<close>: steps 1 and 2 on a
  change of the wanted range. Applying a range is also the consumer's re-request that
  gives a \<open>Failed\<close> tile of the range a fresh attempt (\<open>Failed\<close> to \<open>Pending\<close>).\<close>

definition setWantedTileRange :: "viewport_range \<Rightarrow> 'r scheduler \<Rightarrow> 'r scheduler" where
  "setWantedTileRange r s =
     fold schedule
       (filter (\<lambda>c. is_Unfetched (store_get (store s) c) \<or> is_Failed (store_get (store s) c))
               (coords_in_range r))
       (s\<lparr>wanted := Some r\<rparr>)"

text \<open>Modelled from the spec: the state a completed fetch leaves its tile in: \<open>Loaded\<close>
  for tile data, \<open>Failed\<close> for a \<open>FetchError\<close>.\<close>

fun tile_of_result :: "'r fetch_result \<Rightarrow> 'r tile" where
  "tile_of_result (TileData rows rc cc) = Loaded rows rc cc"
| "tile_of_result (FetchError e) = Failed e"

text \<open>Modelled from the spec: step 3 of the algorithm: on fetch completion the tile goes to
  \<open>Loaded\<close> or \<open>Failed\<close> if it is still \<open>Pending\<close> with the matching token; otherwise
  the result is discarded silently.\<close>

definition fetch_completed ::
  "tile_coordinate \<Rightarrow> nat \<Rightarrow> 'r fetch_result \<Rightarrow> 'r scheduler \<Rightarrow> 'r scheduler" where
  "fetch_completed c t res s =
     (if store_get (store s) c = Pending t
      then s\<lparr>store := store_set (store s) c (tile_of_result res)\<rparr>
      else s)"

text \<open>Modelled from the spec: a change of the address's revisionId. Whenever the revisionId
  changes, every previously fetched tile is invalidated: the store is reset and, as on
  every store reset, the wanted range is reconciled against it.\<close>

definition revision_changed :: "int \<Rightarrow> 'r scheduler \<Rightarrow> 'r scheduler" where
  "revision_changed revision s =
     (if revision \<noteq> revisionId (address s)
      then reconcile (s\<lparr>address := (address s)\<lparr>revisionId := revision\<rparr>,
                        store := store_reset (store s)\<rparr>)
      else s)"

text \<open>Modelled from the spec: what happens to the scheduler, one event at a time on a single
  logical thread (section 5), and the states reached from the initial one.\<close>

datatype 'r event =
    SetWantedRange viewport_range
  | FetchCompleted tile_coordinate nat "'r fetch_result"
  | RevisionChanged int

fun handle_event :: "'r event \<Rightarrow> 'r scheduler \<Rightarrow> 'r scheduler" where
  "handle_event (SetWantedRange r) s = setWantedTileRange r s"
| "handle_event (FetchCompleted c t res) s = fetch_completed c t res s"
| "handle_event (RevisionChanged revision) s = revision_changed revision s"

definition run :: "'r event list \<Rightarrow> 'r scheduler \<Rightarrow> 'r scheduler" where
  "run evs s = fold handle_event evs s"

text \<open>Modelled from the spec: the network calls made for one coordinate, and the pending
  fetches among them: those the store still waits for, the tile being \<open>Pending\<close> with
  the call's token.\<close>

definition calls_for :: "tile_coordinate \<Rightarrow> 'r scheduler \<Rightarrow> fetch_call list" where
  "calls_for c s = filter (\<lambda>k. call_coord k = c) (calls s)"

definition pending_fetches :: "tile_coordinate \<Rightarrow> 'r scheduler \<Rightarrow> fetch_call list" where
  "pending_fetches c s =
     filter (\<lambda>k. call_coord k = c \<and> store_get (store s) c = Pending (call_token k)) (calls s)"

text \<open>
  What the scheduler keeps true of its bookkeeping: every call made carries a token below
  the next token of its coordinate, no two calls carry the same coordinate and token, and
  a \<open>Pending\<close> tile waits for a call that was made.
\<close>

definition scheduler_inv :: "'r scheduler \<Rightarrow> bool" where
  "scheduler_inv s \<longleftrightarrow>
     (\<forall>k \<in> set (calls s). call_token k < next_token s (call_coord k))
     \<and> distinct (map (\<lambda>k. (call_coord k, call_token k)) (calls s))
     \<and> (\<forall>c t. store_get (store s) c = Pending t \<longrightarrow>
            (\<exists>k \<in> set (calls s). call_coord k = c \<and> call_token k = t))"

text \<open>Example values: a one-by-two range of tiles, an address, and a state in which both
  tiles of the range are loaded.\<close>

definition tiles_0_01 :: viewport_range where
  "tiles_0_01 = \<lparr>firstTileRow = 0, lastTileRow = 0, firstTileColumn = 0, lastTileColumn = 1\<rparr>"

definition address_1 :: table_address where
  "address_1 = \<lparr>addr_workflow = WorkflowId 123, addr_stepSlug = ''step-1'', revisionId = 7\<rparr>"

definition loaded_state :: "nat scheduler" where
  "loaded_state =
     run [SetWantedRange tiles_0_01,
          FetchCompleted (0, 0) 0 (TileData [1] 1 1),
          FetchCompleted (0, 1) 0 (TileData [2] 1 1)]
         (init_scheduler address_1)"

section \<open>Table actions: \<open>updateDuplicateModule\<close>\<close>

text \<open>A value that may be \<open>undefined\<close>: what \<open>params[0]\<close> is when no argument was passed.\<close>

datatype jsval = JSUndefined | JSString string

text \<open>The string that \<open>+\<close> concatenates for such a value.\<close>

fun js_to_string :: "jsval \<Rightarrow> string" where
  "js_to_string JSUndefined = ''undefined''"
| "js_to_string (JSString s) = s"

text \<open>\<open>params[0]\<close>: reading past the end of an array gives \<open>undefined\<close>.\<close>

fun params_0 :: "string list \<Rightarrow> jsval" where
  "params_0 [] = JSUndefined"
| "params_0 (x # xs) = JSString x"

text \<open>
  \<open>String.prototype.split(',')\<close>: the pieces between the commas, in order; the empty
  string gives one empty piece.
\<close>

fun split_comma :: "string \<Rightarrow> string list" where
  "split_comma [] = [[]]"
| "split_comma (x # xs) =
     (if x = CHR '','' then [] # split_comma xs
      else (case split_comma xs of [] \<Rightarrow> [[x]] | w # ws \<Rightarrow> (x # w) # ws))"

text \<open>\<open>Array.prototype.includes\<close> on an array of strings: \<open>undefined\<close> is never found.\<close>

fun js_includes :: "string list \<Rightarrow> jsval \<Rightarrow> bool" where
  "js_includes xs JSUndefined = False"
| "js_includes xs (JSString s) = (s \<in> set xs)"

record parameter_val =
  pv_id :: int
  pv_value :: string

record wf_module =
  wfm_id :: int

text \<open>The action built by \<open>setParamValueActionByIdName(wfModuleId, idName, value)\<close>; the
  store is seen through the actions dispatched to it, oldest first.\<close>

datatype action = SetParamValueActionByIdName int string jsval

definition store_dispatch :: "action \<Rightarrow> action list \<Rightarrow> action list" where
  "store_dispatch a dispatched = dispatched @ [a]"

text \<open>
  \<open>updateDuplicateModule(wfm, params)\<close>. The helper \<open>findParamValByIdName\<close> of
  \<open>./utils\<close> is not among the source files and is taken as a parameter; when it finds
  nothing, reading \<open>.value\<close> throws a \<open>TypeError\<close>.
\<close>

definition updateDuplicateModule ::
  "(wf_module \<Rightarrow> string \<Rightarrow> parameter_val option) \<Rightarrow> wf_module \<Rightarrow> string list
     \<Rightarrow> action list \<Rightarrow> js_error + action list" where
  "updateDuplicateModule findParamValByIdName wfm params dispatched =
     (case findParamValByIdName wfm ''colnames'' of
        None \<Rightarrow> Inl TypeError
      | Some entriesParam \<Rightarrow>
          (let duplicateColumnName = params_0 params
           in if pv_value entriesParam \<noteq> []
              then (if \<not> js_includes (split_comma (pv_value entriesParam)) duplicateColumnName
                    then (let entries = pv_value entriesParam @ '','' @ js_to_string duplicateColumnName
                          in Inr (store_dispatch
                                    (SetParamValueActionByIdName (wfm_id wfm) ''colnames'' (JSString entries))
                                    dispatched))
                    else Inr dispatched)
              else Inr (store_dispatch
                          (SetParamValueActionByIdName (wfm_id wfm) ''colnames'' duplicateColumnName)
                          dispatched)))"

text \<open>Example values: a step whose \<open>colnames\<close> parameter is \<open>a,b\<close>.\<close>

definition find_colnames_ab :: "wf_module \<Rightarrow> string \<Rightarrow> parameter_val option" where
  "find_colnames_ab wfm idName =
     (if idName = ''colnames'' then Some \<lparr>pv_id = 5, pv_value = ''a,b''\<rparr> else None)"

section \<open>WorkflowEditor/OutputPane.js\<close>

text \<open>
  A step as \<open>state.steps\<close> holds it, with the fields that \<open>stepStatus\<close> and
  \<open>mapStateToProps\<close> read. A field that may be \<open>null\<close> or missing is an option.
\<close>

record wf_step =
  st_id :: int
  st_slug :: "string option"
  st_module :: "string option"
  st_nClientRequests :: nat
  st_is_busy :: bool
  st_output_status :: "string option"
  st_last_relevant_delta_id :: "int option"
  st_cached_render_result_delta_id :: "int option"
  st_output_columns :: "column list option"
  st_output_n_rows :: "nat option"

record tab =
  tab_step_ids :: "int list"
  tab_selected_step_position :: "nat option"

record module_info =
  has_html_output :: bool

record app_state =
  workflow_public :: bool
  state_steps :: "int \<rightharpoonup> wf_step"
  state_tabs :: "string \<rightharpoonup> tab"
  state_modules :: "string \<rightharpoonup> module_info"
  selectedPane_tabSlug :: string

text \<open>The two shapes among the props of \<open>OutputPane\<close>.\<close>

record step_before_error =
  sbe_id :: int
  sbe_slug :: "string option"
  sbe_deltaId :: "int option"
  sbe_status :: "string option"
  sbe_columns :: "column list option"
  sbe_nRows :: "nat option"

record selected_step =
  sel_id :: int
  sel_slug :: "string option"
  sel_module :: "string option"
  sel_htmlOutput :: bool
  sel_status :: "string option"
  sel_deltaId :: "int option"
  sel_columns :: "column list option"
  sel_nRows :: "nat option"

record output_pane_props =
  pr_workflowIdOrSecretId :: workflow_id
  pr_step :: "selected_step option"
  pr_stepBeforeError :: "step_before_error option"
  pr_isPublic :: bool
  pr_isReadOnly :: bool

text \<open>What the getter \<open>stepForTable\<close> returns: one of the two props, or \<open>null\<close>.\<close>

datatype step_for_table = InputOfError step_before_error | SelectedStep selected_step

fun step_for_table_status :: "step_for_table \<Rightarrow> string option" where
  "step_for_table_status (InputOfError b) = sbe_status b"
| "step_for_table_status (SelectedStep st) = sel_status st"

definition stepForTable :: "output_pane_props \<Rightarrow> step_for_table option" where
  "stepForTable props =
     (case pr_stepBeforeError props of
        Some stepBeforeError \<Rightarrow> Some (InputOfError stepBeforeError)
      | None \<Rightarrow>
          (case pr_step props of
             Some st \<Rightarrow> (if sel_status st \<noteq> Some ''error'' then Some (SelectedStep st) else None)
           | None \<Rightarrow> None))"

text \<open>\<open>stepStatus\<close>; a missing or empty \<open>output_status\<close> is falsy.\<close>

definition stepStatus :: "wf_step option \<Rightarrow> string option" where
  "stepStatus step =
     (case step of
        None \<Rightarrow> None
      | Some st \<Rightarrow>
          (if 0 < st_nClientRequests st \<or> st_is_busy st
               \<or> (st_output_status st = None \<or> st_output_status st = Some [])
               \<or> st_last_relevant_delta_id st \<noteq> st_cached_render_result_delta_id st
           then Some ''busy''
           else st_output_status st))"

text \<open>Reading \<open>xs[i]\<close>: \<open>undefined\<close> past the end and for the index \<open>null\<close>.\<close>

definition array_get :: "'a list \<Rightarrow> nat option \<Rightarrow> 'a option" where
  "array_get xs i =
     (case i of None \<Rightarrow> None | Some n \<Rightarrow> (if n < length xs then Some (xs ! n) else None))"

text \<open>The placeholder step of \<open>mapStateToProps\<close>; the fields it does not set are missing.\<close>

definition placeholder_step :: wf_step where
  "placeholder_step =
     \<lparr>st_id = - 1, st_slug = None, st_module = None, st_nClientRequests = 0, st_is_busy = False,
      st_output_status = None, st_last_relevant_delta_id = None,
      st_cached_render_result_delta_id = None, st_output_columns = None,
      st_output_n_rows = None\<rparr>"

text \<open>
  \<open>mapStateToProps\<close>. The selectors \<open>selectWorkflowIdOrSecretId\<close> and
  \<open>selectIsReadOnly\<close> are not among the source files and are taken as parameters.
  Reading a field of \<open>undefined\<close> (an unknown tab, a step before the error that is not in
  \<open>state.steps\<close>) throws a \<open>TypeError\<close>.
\<close>

definition mapStateToProps ::
  "(app_state \<Rightarrow> workflow_id) \<Rightarrow> (app_state \<Rightarrow> bool) \<Rightarrow> app_state
     \<Rightarrow> js_error + output_pane_props" where
  "mapStateToProps selectWorkflowIdOrSecretId selectIsReadOnly state =
     (case state_tabs state (selectedPane_tabSlug state) of
        None \<Rightarrow> Inl TypeError
      | Some tab \<Rightarrow>
          (let stepArray = map (\<lambda>i. state_steps state i) (tab_step_ids tab);
               stepIndex = tab_selected_step_position tab;
               step0 = (case array_get stepArray stepIndex of Some (Some st) \<Rightarrow> Some st | _ \<Rightarrow> None);
               status = (case step0 of Some st \<Rightarrow> stepStatus (Some st) | None \<Rightarrow> Some ''busy'');
               step1 = (if step0 = None
                           \<and> (case array_get (tab_step_ids tab) stepIndex of
                                 Some i \<Rightarrow> i \<noteq> 0 | None \<Rightarrow> False)
                        then Some placeholder_step else step0);
               props = (\<lambda>stepBeforeError.
                 \<lparr>pr_workflowIdOrSecretId = selectWorkflowIdOrSecretId state,
                  pr_step = (case step1 of
                      None \<Rightarrow> None
                    | Some st \<Rightarrow> Some
                        \<lparr>sel_id = st_id st, sel_slug = st_slug st, sel_module = st_module st,
                         sel_htmlOutput =
                           (case st_module st of
                              None \<Rightarrow> False
                            | Some m \<Rightarrow> (case state_modules state m of
                                          None \<Rightarrow> False | Some md \<Rightarrow> has_html_output md)),
                         sel_status = status,
                         sel_deltaId = st_cached_render_result_delta_id st,
                         sel_columns = st_output_columns st,
                         sel_nRows = st_output_n_rows st\<rparr>),
                  pr_stepBeforeError = stepBeforeError,
                  pr_isPublic = workflow_public state,
                  pr_isReadOnly = selectIsReadOnly state\<rparr>)
           in if status = Some ''error''
                 \<and> (case stepIndex of None \<Rightarrow> False | Some n \<Rightarrow> 0 < n)
              then (case array_get stepArray (map_option (\<lambda>n. n - 1) stepIndex) of
                      Some (Some lastGood) \<Rightarrow>
                        Inr (props (Some
                          \<lparr>sbe_id = st_id lastGood, sbe_slug = st_slug lastGood,
                           sbe_deltaId = st_cached_render_result_delta_id lastGood,
                           sbe_status = stepStatus (Some lastGood),
                           sbe_columns = st_output_columns lastGood,
                           sbe_nRows = st_output_n_rows lastGood\<rparr>))
                    | _ \<Rightarrow> Inl TypeError)
              else Inr (props None)))"

text \<open>
  Example values: a tab of two steps, both rendered with \<open>output_status\<close> \<open>error\<close>
  and neither busy, with the second step selected.
\<close>

definition error_step :: "int \<Rightarrow> wf_step" where
  "error_step i =
     \<lparr>st_id = i, st_slug = Some ''step-x'', st_module = Some ''filter'', st_nClientRequests = 0,
      st_is_busy = False, st_output_status = Some ''error'', st_last_relevant_delta_id = Some 7,
      st_cached_render_result_delta_id = Some 7, st_output_columns = Some [],
      st_output_n_rows = Some 0\<rparr>"

definition two_errors_state :: app_state where
  "two_errors_state =
     \<lparr>workflow_public = False,
      state_steps = [1 \<mapsto> error_step 1, 2 \<mapsto> error_step 2],
      state_tabs = [''tab-1'' \<mapsto> \<lparr>tab_step_ids = [1, 2], tab_selected_step_position = Some 1\<rparr>],
      state_modules = Map.empty,
      selectedPane_tabSlug = ''tab-1''\<rparr>"

section \<open>VersionSelect/QuotaExceeded.js: \<open>groupAutofetches\<close>\<close>





















section \<open>Properties of the arithmetic of doubles\<close>

lemma exponent_lower:
  assumes "x \<noteq> 0"
  shows "2 powi exponent_of x \<le> \<bar>x\<bar>"
proof (cases "1 \<le> \<bar>x\<bar>")
  case True
  let ?i = "\<lfloor>\<bar>x\<bar>\<rfloor>"
  have i: "0 < ?i" using True by simp
  have b: "1 \<le> bitlen ?i" using i by (simp add: bitlen_alt_def)
  have "(2::int) ^ nat (bitlen ?i - 1) \<le> ?i" using bitlen_bounds [OF i] by blast
  then have "(of_int ((2::int) ^ nat (bitlen ?i - 1)) :: real) \<le> of_int ?i" by (simp only: of_int_le_iff)
  also have "\<dots> \<le> \<bar>x\<bar>" by simp
  finally have "(2::real) ^ nat (bitlen ?i - 1) \<le> \<bar>x\<bar>" by simp
  then show ?thesis using True b by (simp add: exponent_of_def power_int_def)
next
  case False
  let ?y = "1 / \<bar>x\<bar>"
  let ?j = "\<lceil>?y\<rceil> - 1"
  have y: "1 < ?y" using False assms by simp
  have j: "0 < ?j" using y by linarith
  have "?y \<le> of_int ?j + 1" by (simp add: le_of_int_ceiling)
  also have "(of_int ?j :: real) + 1 \<le> 2 ^ nat (bitlen ?j)"
  proof -
    have "?j + 1 \<le> 2 ^ nat (bitlen ?j)" using bitlen_bounds [OF j] by linarith
    then have "(of_int (?j + 1) :: real) \<le> of_int (2 ^ nat (bitlen ?j))" by (simp only: of_int_le_iff)
    then show ?thesis by simp
  qed
  finally have "?y \<le> 2 ^ nat (bitlen ?j)" .
  then have "1 / 2 ^ nat (bitlen ?j) \<le> \<bar>x\<bar>" using assms
    by (simp add: field_simps)
  moreover have "(2::real) powi (- bitlen ?j) = 1 / 2 ^ nat (bitlen ?j)"
  proof -
    have "(2::real) powi (- bitlen ?j) = 1 / 2 powi bitlen ?j" by (rule power_int_minus_divide)
    also have "\<dots> = 1 / 2 ^ nat (bitlen ?j)" using bitlen_nonneg [of ?j] by (simp add: power_int_def)
    finally show ?thesis .
  qed
  ultimately show ?thesis using False by (simp add: exponent_of_def)
qed

lemma exponent_upper:
  assumes "x \<noteq> 0"
  shows "\<bar>x\<bar> < 2 powi (exponent_of x + 1)"
proof (cases "1 \<le> \<bar>x\<bar>")
  case True
  let ?i = "\<lfloor>\<bar>x\<bar>\<rfloor>"
  have i: "0 < ?i" using True by simp
  have b: "1 \<le> bitlen ?i" using i by (simp add: bitlen_alt_def)
  have "?i + 1 \<le> 2 ^ nat (bitlen ?i)" using bitlen_bounds [OF i] by linarith
  then have "(of_int (?i + 1) :: real) \<le> of_int (2 ^ nat (bitlen ?i))" by (simp only: of_int_le_iff)
  then have "(of_int ?i :: real) + 1 \<le> 2 ^ nat (bitlen ?i)" by simp
  moreover have "\<bar>x\<bar> < of_int ?i + 1" by linarith
  ultimately have "\<bar>x\<bar> < 2 ^ nat (bitlen ?i)" by linarith
  then show ?thesis using True b by (simp add: exponent_of_def power_int_def)
next
  case False
  let ?y = "1 / \<bar>x\<bar>"
  let ?j = "\<lceil>?y\<rceil> - 1"
  have y: "1 < ?y" using False assms by simp
  have j: "0 < ?j" using y by linarith
  have b: "1 \<le> bitlen ?j" using j by (simp add: bitlen_alt_def)
  have "(2::int) ^ nat (bitlen ?j - 1) \<le> ?j" using bitlen_bounds [OF j] by blast
  then have "(of_int ((2::int) ^ nat (bitlen ?j - 1)) :: real) \<le> of_int ?j" by (simp only: of_int_le_iff)
  also have "of_int ?j < ?y" by linarith
  finally have "(2::real) ^ nat (bitlen ?j - 1) < ?y" by simp
  then have lt: "\<bar>x\<bar> < 1 / 2 ^ nat (bitlen ?j - 1)" using assms
    by (simp add: field_simps)
  have "(2::real) powi (- bitlen ?j + 1) = 1 / 2 ^ nat (bitlen ?j - 1)"
  proof -
    have "- bitlen ?j + 1 = - (bitlen ?j - 1)" by simp
    then have "(2::real) powi (- bitlen ?j + 1) = 2 powi (- (bitlen ?j - 1))" by simp
    also have "\<dots> = 1 / 2 powi (bitlen ?j - 1)" by (rule power_int_minus_divide)
    also have "\<dots> = 1 / 2 ^ nat (bitlen ?j - 1)" using b by (simp add: power_int_def)
    finally show ?thesis .
  qed
  then show ?thesis using False lt by (simp add: exponent_of_def)
qed

lemma exponent_eqI:
  assumes "2 powi k \<le> \<bar>x\<bar>" and "\<bar>x\<bar> < 2 powi (k + 1)"
  shows "exponent_of x = k"
proof -
  have "0 < (2::real) powi k" by (rule zero_less_power_int) simp
  then have "0 < \<bar>x\<bar>" using assms(1) by linarith
  then have x: "x \<noteq> 0" by simp
  note lo = exponent_lower [OF x] and up = exponent_upper [OF x]
  have "\<not> exponent_of x < k"
  proof
    assume "exponent_of x < k"
    then have "exponent_of x + 1 \<le> k" by simp
    then have "(2::real) powi (exponent_of x + 1) \<le> 2 powi k"
      by (intro power_int_increasing) simp_all
    with up assms(1) show False by linarith
  qed
  moreover have "\<not> k < exponent_of x"
  proof
    assume "k < exponent_of x"
    then have "k + 1 \<le> exponent_of x" by simp
    then have "(2::real) powi (k + 1) \<le> 2 powi exponent_of x"
      by (intro power_int_increasing) simp_all
    with lo assms(2) show False by linarith
  qed
  ultimately show ?thesis by simp
qed

lemma round_half_even_le:
  assumes "y \<le> of_int m"
  shows "round_half_even y \<le> m"
proof -
  have f: "\<lfloor>y\<rfloor> \<le> m" using assms by (simp add: floor_le_iff)
  show ?thesis
  proof (cases "\<lfloor>y\<rfloor> = m")
    case True
    then have "y = of_int m" using assms by linarith
    then show ?thesis by (simp add: round_half_even_def)
  next
    case False
    then have "\<lfloor>y\<rfloor> + 1 \<le> m" using f by simp
    then show ?thesis by (simp add: round_half_even_def Let_def)
  qed
qed


lemma round_half_even_gt:
  assumes "of_int m + 1 / 2 < y"
  shows "m + 1 \<le> round_half_even y"
proof -
  have f: "m \<le> \<lfloor>y\<rfloor>" using assms by (simp add: le_floor_iff)
  show ?thesis
  proof (cases "\<lfloor>y\<rfloor> = m")
    case True
    then have "1 / 2 < y - of_int \<lfloor>y\<rfloor>" using assms by simp
    then show ?thesis using True by (simp add: round_half_even_def Let_def)
  next
    case False
    then have "m + 1 \<le> \<lfloor>y\<rfloor>" using f by simp
    then show ?thesis by (simp add: round_half_even_def Let_def)
  qed
qed

lemma round_half_even_of_int [simp]: "round_half_even (of_int m) = m"
  by (simp add: round_half_even_def)

lemma ulp_pos: "0 < ulp x"
  unfolding ulp_def by (rule zero_less_power_int) simp

lemma round_double_exact:
  assumes "x / ulp x = of_int m"
  shows "round_double x = x"
proof -
  have "round_double x = of_int m * ulp x" by (simp add: round_double_def assms)
  also have "\<dots> = x / ulp x * ulp x" by (simp add: assms)
  also have "\<dots> = x" using ulp_pos [of x] by simp
  finally show ?thesis .
qed

lemma ulp_eq:
  assumes "2 powi k \<le> \<bar>x\<bar>" and "\<bar>x\<bar> < 2 powi (k + 1)" and "- 1022 \<le> k"
  shows "ulp x = 2 powi (k - 52)"
  using exponent_eqI [OF assms(1,2)] assms(3) by (simp add: ulp_def)

lemma round_double_quotient:
  fixes n r :: nat
  assumes n: "0 < n" and r: "0 < r" and n53: "n < 2 ^ 53" and r53: "r < 2 ^ 53"
  shows "of_int (\<lceil>real n / real r\<rceil> - 1) < round_double (real n / real r)
         \<and> round_double (real n / real r) \<le> of_int \<lceil>real n / real r\<rceil>"
proof -
  define q where "q = real n / real r"
  define e where "e = exponent_of q"
  have q0: "0 < q" using n r by (simp add: q_def)
  then have qn: "q \<noteq> 0" and aq: "\<bar>q\<bar> = q" by simp_all
  have lo: "2 powi e \<le> q" using exponent_lower [OF qn] by (simp add: e_def aq)
  have up: "q < 2 powi (e + 1)" using exponent_upper [OF qn] by (simp add: e_def aq)
  have qr: "q * real r = real n" using r by (simp add: q_def)
  have q_ge: "1 / real r \<le> q" using n r by (simp add: q_def field_simps)
  have q_le: "q \<le> real n" using n r by (simp add: q_def field_simps)
  \<comment> \<open>the exponent lies between -53 and 52\<close>
  have e_lo: "- 53 \<le> e"
  proof (rule ccontr)
    assume "\<not> - 53 \<le> e"
    then have "e + 1 \<le> - 53" by simp
    then have "(2::real) powi (e + 1) \<le> 2 powi (- 53)" by (intro power_int_increasing) simp_all
    then have "q < 2 powi (- 53)" using up by linarith
    then have "q < 1 / 2 ^ 53" by (simp add: power_int_minus_divide)
    moreover have "1 / 2 ^ 53 < 1 / real r" using r r53 by (simp add: field_simps)
    ultimately show False using q_ge by linarith
  qed
  have e_hi: "e \<le> 52"
  proof (rule ccontr)
    assume "\<not> e \<le> 52"
    then have "53 \<le> e" by simp
    then have "(2::real) powi 53 \<le> 2 powi e" by (intro power_int_increasing) simp_all
    then have "2 ^ 53 \<le> q" using lo by simp
    then show False using q_le n53 by simp
  qed
  define d where "d = nat (52 - e)"
  have de: "int d = 52 - e" using e_hi by (simp add: d_def)
  have u: "ulp q = 1 / 2 ^ d"
  proof -
    have "ulp q = 2 powi (e - 52)" using e_lo by (simp add: ulp_def e_def)
    also have "e - 52 = - int d" using de by simp
    also have "(2::real) powi (- int d) = 1 / 2 ^ d" by (simp add: power_int_minus_divide)
    finally show ?thesis .
  qed
  have y: "q / ulp q = q * 2 ^ d" by (simp add: u)
  let ?c = "\<lceil>q\<rceil>"
  \<comment> \<open>upper bound\<close>
  have "q * 2 ^ d \<le> of_int (?c * 2 ^ d)" by (simp add: le_of_int_ceiling)
  then have "round_half_even (q / ulp q) \<le> ?c * 2 ^ d"
    unfolding y by (rule round_half_even_le)
  then have "(of_int (round_half_even (q / ulp q)) :: real) \<le> of_int (?c * 2 ^ d)"
    by (simp only: of_int_le_iff)
  then have "round_double q \<le> of_int (?c * 2 ^ d) * (1 / 2 ^ d)"
    unfolding round_double_def u by (intro mult_right_mono) simp_all
  then have hi: "round_double q \<le> of_int ?c" by simp
  \<comment> \<open>lower bound\<close>
  have "real_of_int (?c - 1) < q" by linarith
  then have "real_of_int (?c - 1) * real r < q * real r" using r by simp
  then have "real_of_int ((?c - 1) * int r) < real_of_int (int n)" by (simp add: qr)
  then have "(?c - 1) * int r < int n" by (simp only: of_int_less_iff)
  then have "(?c - 1) * int r + 1 \<le> int n" by simp
  then have "real_of_int ((?c - 1) * int r + 1) \<le> real_of_int (int n)" by (simp only: of_int_le_iff)
  then have "real_of_int (?c - 1) * real r + 1 \<le> q * real r" by (simp add: qr)
  then have gap: "1 / real r \<le> q - real_of_int (?c - 1)" using r by (simp add: field_simps)
  define P :: real where "P = 2 powi e"
  have P: "0 < P" unfolding P_def by (rule zero_less_power_int) simp
  have "P * real r \<le> q * real r" using lo r unfolding P_def by (intro mult_right_mono) simp_all
  then have "P * real r \<le> real n" by (simp only: qr)
  moreover have "real n < 2 ^ 53"
  proof -
    have "real n < real (2 ^ 53)" using n53 by (simp only: of_nat_less_iff)
    then show ?thesis by simp
  qed
  ultimately have A: "P * real r < 2 ^ 53" by linarith
  have B: "(2::real) ^ 53 = P * (2 * 2 ^ d)"
  proof -
    have "(2::real) powi e * (2 * 2 ^ d) = 2 powi e * 2 powi (int d + 1)"
      by (simp add: power_int_add)
    also have "\<dots> = 2 powi (e + (int d + 1))" by (simp add: power_int_add)
    also have "e + (int d + 1) = 53" using de by simp
    finally show ?thesis unfolding P_def by simp
  qed
  have "P * real r < P * (2 * 2 ^ d)" using A by (simp only: B)
  then have rlt: "real r < 2 * 2 ^ d" using P by (simp only: mult_less_cancel_left_pos)
  have "1 / 2 < 2 ^ d / real r" using rlt r by (simp add: field_simps)
  also have "\<dots> = (1 / real r) * 2 ^ d" by simp
  also have "\<dots> \<le> (q - real_of_int (?c - 1)) * 2 ^ d" using gap by (intro mult_right_mono) simp_all
  finally have "real_of_int ((?c - 1) * 2 ^ d) + 1 / 2 < q * 2 ^ d" by (simp add: algebra_simps)
  then have "(?c - 1) * 2 ^ d + 1 \<le> round_half_even (q / ulp q)"
    unfolding y by (rule round_half_even_gt)
  then have "real_of_int ((?c - 1) * 2 ^ d + 1) \<le> of_int (round_half_even (q / ulp q))"
    by (simp only: of_int_le_iff)
  then have "real_of_int ((?c - 1) * 2 ^ d + 1) * (1 / 2 ^ d) \<le> round_double q"
    unfolding round_double_def u by (intro mult_right_mono) simp_all
  moreover have "real_of_int ((?c - 1) * 2 ^ d + 1) * (1 / 2 ^ d) = real_of_int (?c - 1) + 1 / 2 ^ d"
    by (simp add: field_simps)
  ultimately have "real_of_int (?c - 1) + 1 / 2 ^ d \<le> round_double q" by simp
  moreover have "(0::real) < 1 / 2 ^ d" by simp
  ultimately have lo': "real_of_int (?c - 1) < round_double q" by linarith
  from lo' hi show ?thesis by (simp add: q_def)
qed



lemma round_double_nonpos: "x \<le> 0 \<Longrightarrow> round_double x \<le> 0"
proof -
  assume "x \<le> 0"
  then have "x / ulp x \<le> of_int 0" using ulp_pos [of x] by (simp add: divide_le_0_iff)
  then have "round_half_even (x / ulp x) \<le> 0" by (rule round_half_even_le)
  then show ?thesis using ulp_pos [of x] by (simp add: round_double_def mult_le_0_iff)
qed





lemma on_grid_0 [simp]: "on_grid 0"
  by (simp add: on_grid_def)










lemma pow2_less_cancel:
  assumes "(2::real) powi a < 2 powi b"
  shows "a < b"
proof (rule ccontr)
  assume "\<not> a < b"
  then have "b \<le> a" by simp
  then have "(2::real) powi b \<le> 2 powi a" by (intro power_int_increasing) simp_all
  then show False using assms by linarith
qed

lemma round_double_dyadic:
  assumes m: "\<bar>m\<bar> < 2 ^ 53" and j: "j \<le> 1022"
  shows "round_double (of_int m / 2 ^ j) = of_int m / 2 ^ j"
proof (cases "m = 0")
  case True
  have "(0::real) / ulp 0 = of_int 0" by simp
  then have "round_double 0 = 0" by (rule round_double_exact)
  then show ?thesis using True by simp
next
  case False
  define x :: real where "x = of_int m / 2 ^ j"
  define e where "e = exponent_of x"
  have ax: "\<bar>x\<bar> = of_int \<bar>m\<bar> / 2 ^ j" by (simp add: x_def)
  have x0: "x \<noteq> 0" using False by (simp add: x_def)
  have lo: "2 powi e \<le> \<bar>x\<bar>" unfolding e_def by (rule exponent_lower [OF x0])
  have up: "\<bar>x\<bar> < 2 powi (e + 1)" unfolding e_def by (rule exponent_upper [OF x0])
  have pj: "(2::real) powi (- int j) = 1 / 2 ^ j" by (simp add: power_int_minus_divide)
  have "1 \<le> \<bar>m\<bar>" using False by simp
  then have "(1::real) \<le> of_int \<bar>m\<bar>" by (simp only: of_int_1_le_iff)
  then have "1 / 2 ^ j \<le> \<bar>x\<bar>" unfolding ax by (intro divide_right_mono) simp_all
  then have "2 powi (- int j) < (2::real) powi (e + 1)" using up pj by linarith
  then have "- int j < e + 1" by (rule pow2_less_cancel)
  then have e_lo: "- int j \<le> e" by simp
  have "real_of_int \<bar>m\<bar> < real_of_int (2 ^ 53)" using m by (simp only: of_int_less_iff)
  then have "real_of_int \<bar>m\<bar> < 2 powi 53" by simp
  then have "\<bar>x\<bar> < 2 powi 53 / 2 ^ j" unfolding ax by (intro divide_strict_right_mono) simp_all
  also have "\<dots> = 2 powi 53 * 2 powi (- int j)" by (simp only: pj) simp
  also have "\<dots> = 2 powi (53 + (- int j))" by (rule power_int_add [symmetric]) simp
  finally have "(2::real) powi e < 2 powi (53 - int j)" using lo by simp
  then have "e < 53 - int j" by (rule pow2_less_cancel)
  then have e_hi: "e \<le> 52 - int j" by simp
  define d where "d = nat (52 - int j - e)"
  have de: "int d = 52 - int j - e" using e_hi by (simp add: d_def)
  have "- 1022 \<le> e" using e_lo j by simp
  then have u: "ulp x = 2 powi (e - 52)" by (simp add: ulp_def e_def)
  have "2 powi (e - 52) * (2::real) powi (int d) = 2 powi (e - 52 + int d)"
    by (rule power_int_add [symmetric]) simp
  also have "e - 52 + int d = - int j" using de by simp
  finally have "ulp x * 2 ^ d = 1 / 2 ^ j" by (simp only: u pj power_int_of_nat)
  then have "ulp x * 2 ^ d * of_int m = x" by (simp add: x_def)
  then have "x / ulp x = of_int m * 2 ^ d" using ulp_pos [of x] by (simp add: field_simps)
  then have "x / ulp x = of_int (m * 2 ^ d)" by simp
  then have "round_double x = x" by (rule round_double_exact)
  then show ?thesis by (simp only: x_def)
qed

lemma to_double_dyadic:
  assumes "\<bar>m\<bar> < 2 ^ 53" and "j \<le> 1022" and "m \<noteq> 0"
  shows "to_double (of_int m / 2 ^ j) = Num (of_int m / 2 ^ j)"
proof -
  define x :: real where "x = of_int m / 2 ^ j"
  have r: "round_double x = x" unfolding x_def by (rule round_double_dyadic [OF assms(1,2)])
  have x0: "x \<noteq> 0" using assms(3) by (simp add: x_def)
  have "real_of_int \<bar>m\<bar> < real_of_int (2 ^ 53)" using assms(1) by (simp only: of_int_less_iff)
  then have "real_of_int \<bar>m\<bar> < 2 ^ 53" by simp
  moreover have "\<bar>x\<bar> \<le> real_of_int \<bar>m\<bar>" 
    by (simp add: x_def field_simps mult_le_cancel_left1 abs_mult)
  moreover have "(2::real) ^ 53 < 2 ^ 1024" by (rule power_strict_increasing) simp_all
  ultimately have "\<not> 2 ^ 1024 \<le> \<bar>x\<bar>" by linarith
  then have "to_double x = Num x" using r x0 by (simp add: to_double_def)
  then show ?thesis by (simp only: x_def)
qed

lemma to_double_int:
  assumes "\<bar>m\<bar> < 2 ^ 53" and "m \<noteq> 0"
  shows "to_double (of_int m) = Num (of_int m)"
  using to_double_dyadic [OF assms(1) _ assms(2), of 0] by simp

lemma to_double_third_of_1e17:
  "to_double (100000000000000000 / 3) = Num 33333333333333332"
proof -
  define x :: real where "x = 100000000000000000 / 3"
  have "2 powi 54 \<le> \<bar>x\<bar>" and "\<bar>x\<bar> < 2 powi (54 + 1)" by (simp_all add: x_def)
  then have "ulp x = 2 powi (54 - 52)" by (rule ulp_eq) simp
  then have u: "ulp x = 4" by simp
  have q: "x / 4 = 100000000000000000 / 12" by (simp add: x_def)
  have "round_half_even (100000000000000000 / 12) = 8333333333333333"
    by (simp add: round_half_even_def Let_def)
  then have "round_half_even (x / 4) = 8333333333333333" by (simp only: q)
  then have "round_double x = 33333333333333332" by (simp add: round_double_def u)
  then have "to_double x = Num 33333333333333332" by (simp add: to_double_def x_def)
  then show ?thesis by (simp only: x_def)
qed

lemma to_double_numeral:
  assumes "(numeral k :: int) < 2 ^ 53"
  shows "to_double (numeral k) = Num (numeral k)"
  using to_double_int [of "numeral k"] assms by simp

lemma to_double_neg_numeral:
  assumes "(numeral k :: int) < 2 ^ 53"
  shows "to_double (- numeral k) = Num (- numeral k)"
  using to_double_int [of "- numeral k"] assms by simp











section \<open>Properties of the tile grid size\<close>

lemma neg_div_neg_eq: 
  assumes "0 < (b::int)" 
  shows "- (- a div b) = (a + b - 1) div b"
proof -
  define q where "q = a div b"
  define m where "m = a mod b"
  have a: "a = b * q + m" by (simp add: q_def m_def)
  have m0: "0 \<le> m" "m < b" using assms by (simp_all add: m_def)
  show ?thesis
  proof (cases "m = 0")
    case True
    have "- a = b * (- q)" using a True by simp
    then have "- a div b = b * (- q) div b" by (simp only:)
    also have "\<dots> = - q" using assms by (intro nonzero_mult_div_cancel_left) simp
    finally have L: "- a div b = - q" .
    have "a + b - 1 = b * q + (b - 1)" using a True by simp
    then have "(a + b - 1) div b = (b * q + (b - 1)) div b" by (simp only:)
    also have "\<dots> = q + (b - 1) div b" using assms by (intro div_mult_self4) simp
    also have "(b - 1) div b = 0" using assms by (intro div_pos_pos_trivial) simp_all
    finally have R: "(a + b - 1) div b = q" by simp
    show ?thesis unfolding L R by simp
  next
    case False
    then have "a mod b \<noteq> 0" by (simp add: m_def)
    then have L: "- a div b = - q - 1" using assms by (simp add: zdiv_zminus1_eq_if q_def)
    have "a + b - 1 = b * (q + 1) + (m - 1)" using a by (simp add: algebra_simps)
    then have "(a + b - 1) div b = (b * (q + 1) + (m - 1)) div b" by (simp only:)
    also have "\<dots> = q + 1 + (m - 1) div b" using assms by (intro div_mult_self4) simp
    also have "(m - 1) div b = 0" using m0 False by (intro div_pos_pos_trivial) simp_all
    finally have R: "(a + b - 1) div b = q + 1" by simp
    show ?thesis unfolding L R by simp
  qed
qed

lemma ceiling_nat_quotient: 
  assumes "0 < r"
  shows "\<lceil>(of_nat n :: real) / of_nat r\<rceil> = int ((n + r - 1) div r)"
proof -
  have "\<lceil>(of_nat n :: real) / of_nat r\<rceil> = \<lceil>(of_int (int n) :: real) / of_int (int r)\<rceil>" 
    by simp
  also have "\<dots> = - (- int n div int r)" by (rule ceiling_divide_eq_div)
  also have "\<dots> = (int n + int r - 1) div int r" using assms by (simp add: neg_div_neg_eq)
  also have "\<dots> = int ((n + r - 1) div r)" using assms
    by (simp add: zdiv_int of_nat_diff)
  finally show ?thesis .
qed

lemma ceil_quotient_of_doubles:
  fixes n r :: nat
  assumes r: "0 < r" and n53: "n < 2 ^ 53" and r53: "r < 2 ^ 53"
  shows "Math_ceil (js_div (Num (real n)) (Num (real r))) = Num (of_int \<lceil>real n / real r\<rceil>)"
proof (cases "n = 0")
  case True
  then show ?thesis using r by (simp add: js_div_def signed_zero_def)
next
  case False
  then have n: "0 < n" by simp
  define q where "q = real n / real r"
  define d where "d = round_double q"
  have q0: "0 < q" using n r by (simp add: q_def)
  have b: "of_int (\<lceil>q\<rceil> - 1) < d" "d \<le> of_int \<lceil>q\<rceil>"
    using round_double_quotient [OF n r n53 r53] by (simp_all add: q_def d_def)
  have c1: "1 \<le> \<lceil>q\<rceil>" using q0 by (simp add: le_ceiling_iff)
  then have "(0::real) \<le> of_int (\<lceil>q\<rceil> - 1)" by simp
  then have d0: "0 < d" using b(1) by linarith
  have "q \<le> real n" using n r by (simp add: q_def field_simps)
  then have "\<lceil>q\<rceil> \<le> int n" by (simp add: ceiling_le_iff)
  then have "real_of_int \<lceil>q\<rceil> \<le> real n" by (metis of_int_le_iff of_int_of_nat_eq)
  moreover have "real n < 2 ^ 53"
  proof -
    have "real n < real (2 ^ 53)" using n53 by (simp only: of_nat_less_iff)
    then show ?thesis by simp
  qed
  moreover have "(2::real) ^ 53 < 2 ^ 1024" by (rule power_strict_increasing) simp_all
  ultimately have "\<not> 2 ^ 1024 \<le> \<bar>d\<bar>" using b(2) d0 by linarith
  then have t: "to_double q = Num d" using d0 by (simp add: to_double_def d_def [symmetric])
  have cd: "\<lceil>d\<rceil> = \<lceil>q\<rceil>" using b by (intro ceiling_unique) simp_all
  have "js_div (Num (real n)) (Num (real r)) = to_double q"
    using n r by (simp add: js_div_def q_def)
  then show ?thesis using t cd c1 d0 by (simp add: q_def)
qed

text \<open>
  C1 as stated fails: the quotient is a double. With \<open>nRows = 100000000000000000\<close> and
  \<open>nRowsPerTile = 3\<close>, both positive integers that are doubles, the quotient is rounded
  to \<open>33333333333333332\<close>, which \<open>Table\<close> returns as the number of tile rows; the
  ceiling of the quotient is \<open>33333333333333334\<close>.
\<close>

theorem tileCount_double_counterexample:
  "Table_tileCount \<lparr>workflowIdOrSecretId = WorkflowId 1, stepSlug = ''step-1'', deltaId = 1,
       nRows = Num 100000000000000000,
       columns = Some (replicate 3 \<lparr>column_name = ''a'', column_type = ''text''\<rparr>),
       nRowsPerTile = Num 3, nColumnsPerTile = Num 1\<rparr>
     = Inr (Num 33333333333333332, Num 3)
   \<and> \<lceil>(100000000000000000 :: real) / 3\<rceil> = 33333333333333334"
  by (simp add: Table_tileCount_def js_div_def to_double_third_of_1e17 to_double_numeral)

text \<open>
  C1, as the code has it. For a positive number of rows per tile and of columns per tile,
  any number of rows and any list of columns, all of these numbers below \<open>2^53\<close>,
  \<open>Table\<close> computes \<open>ceil(nRows / nRowsPerTile)\<close> tile rows and
  \<open>ceil(columns.length / nColumnsPerTile)\<close> tile columns, the ceilings of the exact
  quotients, which are the quotients of the integer division rounded up.
\<close>

theorem tileCount_is_ceiling:
  assumes "0 < r" and "0 < c"
    and "n < 2 ^ 53" and "r < 2 ^ 53" and "length cs < 2 ^ 53" and "c < 2 ^ 53"
    and "nRows p = Num (of_nat n)" and "nRowsPerTile p = Num (of_nat r)"
    and "columns p = Some cs" and "nColumnsPerTile p = Num (of_nat c)"
  shows "Table_tileCount p =
           Inr (Num (of_int \<lceil>(of_nat n :: real) / of_nat r\<rceil>),
                Num (of_int \<lceil>(of_nat (length cs) :: real) / of_nat c\<rceil>))
         \<and> \<lceil>(of_nat n :: real) / of_nat r\<rceil> = int ((n + r - 1) div r)
         \<and> \<lceil>(of_nat (length cs) :: real) / of_nat c\<rceil> = int ((length cs + c - 1) div c)"
  using assms
  by (simp add: Table_tileCount_def ceil_quotient_of_doubles ceiling_nat_quotient)

theorem tileCount_is_ceiling_witness:
  "Table_tileCount \<lparr>workflowIdOrSecretId = WorkflowId 1, stepSlug = ''step-1'', deltaId = 1,
       nRows = Num 5, columns = Some (replicate 3 \<lparr>column_name = ''a'', column_type = ''text''\<rparr>),
       nRowsPerTile = Num 2, nColumnsPerTile = Num 2\<rparr>
   = Inr (Num 3, Num 2)"
  using tileCount_is_ceiling [of 2 2 5 "replicate 3 \<lparr>column_name = ''a'', column_type = ''text''\<rparr>"
      "\<lparr>workflowIdOrSecretId = WorkflowId 1, stepSlug = ''step-1'', deltaId = 1,
        nRows = Num 5, columns = Some (replicate 3 \<lparr>column_name = ''a'', column_type = ''text''\<rparr>),
        nRowsPerTile = Num 2, nColumnsPerTile = Num 2\<rparr>"]
  by simp

text \<open>
  C2 as stated fails: with \<open>nRowsPerTile = -2\<close> and \<open>nColumnsPerTile = 0\<close>, neither a
  positive integer, \<open>Table\<close> returns the grid size \<open>(-2, Infinity)\<close> and no error.
\<close>

theorem tileCount_error_counterexample:
  "Table_tileCount \<lparr>workflowIdOrSecretId = WorkflowId 1, stepSlug = ''step-1'', deltaId = 1,
       nRows = Num 5, columns = Some (replicate 3 \<lparr>column_name = ''a'', column_type = ''text''\<rparr>),
       nRowsPerTile = Num (- 2), nColumnsPerTile = Num 0\<rparr>
   = Inr (Num (- 2), PosInfinity)"
proof -
  have "to_double (real_of_int (- 5) / 2 ^ 1) = Num (real_of_int (- 5) / 2 ^ 1)"
    by (rule to_double_dyadic) simp_all
  then have "to_double (- (5 / 2)) = Num (- (5 / 2))" by simp
  then show ?thesis
    by (simp add: Table_tileCount_def js_div_def signed_infinity_def)
qed

text \<open>
  C2, as the code has it. \<open>Table\<close> validates neither tile size: whether the computation
  fails does not depend on them. It fails, with a \<open>TypeError\<close>, when \<open>columns\<close> is
  \<open>null\<close> or \<open>undefined\<close>, and returns a pair whenever \<open>columns\<close> is an array,
  whatever the tile sizes are.
\<close>

theorem tileCount_no_validation:
  "(columns p = None \<longrightarrow> Table_tileCount p = Inl TypeError)
   \<and> (columns p \<noteq> None \<longrightarrow> (\<exists>rows cols. Table_tileCount p = Inr (rows, cols)))"
  by (auto simp: Table_tileCount_def Let_def)

theorem tileCount_no_validation_witness:
  "Table_tileCount \<lparr>workflowIdOrSecretId = WorkflowId 1, stepSlug = ''step-1'', deltaId = 1,
       nRows = Num 5, columns = None, nRowsPerTile = Num 2, nColumnsPerTile = Num 2\<rparr>
     = Inl TypeError
   \<and> (\<exists>rows cols. Table_tileCount \<lparr>workflowIdOrSecretId = WorkflowId 1, stepSlug = ''step-1'', deltaId = 1,
       nRows = Num 5, columns = Some (replicate 3 \<lparr>column_name = ''a'', column_type = ''text''\<rparr>),
       nRowsPerTile = Num (- 2), nColumnsPerTile = Num 0\<rparr> = Inr (rows, cols))"
  using tileCount_no_validation [of
      "\<lparr>workflowIdOrSecretId = WorkflowId 1, stepSlug = ''step-1'', deltaId = 1,
        nRows = Num 5, columns = None, nRowsPerTile = Num 2, nColumnsPerTile = Num 2\<rparr>"]
    tileCount_no_validation [of
      "\<lparr>workflowIdOrSecretId = WorkflowId 1, stepSlug = ''step-1'', deltaId = 1,
        nRows = Num 5, columns = Some (replicate 3 \<lparr>column_name = ''a'', column_type = ''text''\<rparr>),
        nRowsPerTile = Num (- 2), nColumnsPerTile = Num 0\<rparr>"]
  by simp

section \<open>Properties of the tile request path\<close>



section \<open>Properties of the tile store and scheduler\<close>

lemma inv_init: "scheduler_inv (init_scheduler a)"
  by (simp add: scheduler_inv_def init_scheduler_def store_get_def)

lemma inv_schedule: 
  assumes "scheduler_inv s" 
  shows "scheduler_inv (schedule c s)"
proof -
  let ?k = "\<lparr>call_address = address s, call_coord = c, call_token = next_token s c\<rparr>"
  have 1: "\<forall>k \<in> set (calls s). call_token k < next_token s (call_coord k)"
    and 2: "distinct (map (\<lambda>k. (call_coord k, call_token k)) (calls s))"
    and 3: "\<forall>c t. store_get (store s) c = Pending t \<longrightarrow>
            (\<exists>k \<in> set (calls s). call_coord k = c \<and> call_token k = t)"
    using assms by (simp_all add: scheduler_inv_def)
  have a: "\<forall>k \<in> set (calls (schedule c s)). call_token k < next_token (schedule c s) (call_coord k)"
    using 1 by (auto simp: schedule_def Let_def less_Suc_eq)
  have "(c, next_token s c) \<notin> (\<lambda>k. (call_coord k, call_token k)) ` set (calls s)"
    using 1 by auto
  then have b: "distinct (map (\<lambda>k. (call_coord k, call_token k)) (calls (schedule c s)))"
    using 2 by (simp add: schedule_def Let_def)
  have c: "\<forall>c' t. store_get (store (schedule c s)) c' = Pending t \<longrightarrow>
            (\<exists>k \<in> set (calls (schedule c s)). call_coord k = c' \<and> call_token k = t)"
    using 3 by (auto simp: schedule_def Let_def store_get_def store_set_def)
  from a b c show ?thesis unfolding scheduler_inv_def by blast
qed

lemma inv_fold_schedule: "scheduler_inv s \<Longrightarrow> scheduler_inv (fold schedule cs s)"
  by (induction cs arbitrary: s) (simp_all add: inv_schedule)

lemma inv_setWantedTileRange: 
  assumes "scheduler_inv s" shows "scheduler_inv (setWantedTileRange r s)"
proof -
  have "scheduler_inv (s\<lparr>wanted := Some r\<rparr>)" using assms by (simp add: scheduler_inv_def)
  then show ?thesis unfolding setWantedTileRange_def by (rule inv_fold_schedule)
qed

lemma inv_fetch_completed:
  assumes "scheduler_inv s" shows "scheduler_inv (fetch_completed c t res s)"
  using assms by (cases res) (auto simp: scheduler_inv_def fetch_completed_def store_get_def store_set_def)

lemma inv_reconcile: "scheduler_inv s \<Longrightarrow> scheduler_inv (reconcile s)"
  by (simp add: reconcile_def inv_fold_schedule split: option.splits)

lemma inv_revision_changed:
  assumes "scheduler_inv s" shows "scheduler_inv (revision_changed newer s)"
proof (cases "newer \<noteq> revisionId (address s)")
  case True
  have "scheduler_inv (s\<lparr>address := (address s)\<lparr>revisionId := newer\<rparr>, store := store_reset (store s)\<rparr>)"
    using assms by (simp add: scheduler_inv_def store_reset_def store_get_def)
  then show ?thesis using True by (simp add: revision_changed_def inv_reconcile)
next
  case False
  then show ?thesis using assms by (simp add: revision_changed_def)
qed

lemma inv_step: "scheduler_inv s \<Longrightarrow> scheduler_inv (handle_event e s)"
  by (cases e) (simp_all add: inv_setWantedTileRange inv_fetch_completed inv_revision_changed)

lemma inv_fold_step: "scheduler_inv s \<Longrightarrow> scheduler_inv (fold handle_event evs s)"
  by (induction evs arbitrary: s) (simp_all add: inv_step)

lemma inv_run: "scheduler_inv s \<Longrightarrow> scheduler_inv (run evs s)"
  by (simp add: run_def inv_fold_step)

lemma filter_at_most_one:
  assumes "distinct (map f xs)" and "\<forall>x \<in> set xs. P x \<longrightarrow> f x = v"
  shows "length (filter P xs) \<le> 1"
  using assms
proof (induction xs)
  case Nil
  then show ?case by simp
next
  case (Cons x xs)
  show ?case
  proof (cases "P x")
    case True
    then have "f x = v" using Cons.prems by simp
    then have "\<forall>y \<in> set xs. \<not> P y" using Cons.prems by (metis distinct.simps(2) image_eqI list.map(2) list.set_intros(2) list.set_map)
    then have "filter P xs = []" by (simp add: filter_empty_conv)
    then show ?thesis using True by simp
  next
    case False
    then show ?thesis using Cons by simp
  qed
qed

lemma pending_fetches_count:
  assumes "scheduler_inv s"
  shows "length (pending_fetches c s) = (if \<exists>t. store_get (store s) c = Pending t then 1 else 0)"
proof (cases "\<exists>t. store_get (store s) c = Pending t")
  case True
  then obtain t where t: "store_get (store s) c = Pending t" by blast
  have d: "distinct (map (\<lambda>k. (call_coord k, call_token k)) (calls s))"
    using assms by (simp add: scheduler_inv_def)
  have "length (pending_fetches c s) \<le> 1"
    unfolding pending_fetches_def
    by (rule filter_at_most_one [OF d, where v = "(c, t)"]) (simp add: t)
  moreover obtain k where "k \<in> set (calls s)" "call_coord k = c" "call_token k = t"
    using assms t unfolding scheduler_inv_def by blast
  then have "k \<in> set (pending_fetches c s)" by (simp add: pending_fetches_def t)
  then have "1 \<le> length (pending_fetches c s)" by (cases "pending_fetches c s") auto
  ultimately have "length (pending_fetches c s) = 1" by (rule antisym)
  then show ?thesis using True by simp
next
  case False
  then show ?thesis by (simp add: pending_fetches_def filter_empty_conv)
qed


lemma schedule_other:
  assumes "c \<noteq> x"
  shows "calls_for c (schedule x s) = calls_for c s"
    and "store_get (store (schedule x s)) c = store_get (store s) c"
    and "next_token (schedule x s) c = next_token s c"
  using assms by (auto simp: schedule_def Let_def calls_for_def store_get_def store_set_def)

lemma schedule_self:
  shows "length (calls_for c (schedule c s)) = Suc (length (calls_for c s))"
    and "store_get (store (schedule c s)) c = Pending (next_token s c)"
    and "next_token (schedule c s) c = Suc (next_token s c)"
  by (auto simp: schedule_def Let_def calls_for_def store_get_def store_set_def)

lemma fold_schedule_other:
  assumes "c \<notin> set cs"
  shows "calls_for c (fold schedule cs s) = calls_for c s
         \<and> store_get (store (fold schedule cs s)) c = store_get (store s) c
         \<and> next_token (fold schedule cs s) c = next_token s c"
  using assms
proof (induction cs arbitrary: s)
  case Nil
  then show ?case by simp
next
  case (Cons x xs)
  then have "c \<noteq> x" and "c \<notin> set xs" by auto
  then show ?case using Cons.IH [of "schedule x s"] by (simp add: schedule_other)
qed

lemma fold_schedule_once:
  assumes "c \<in> set cs" and "distinct cs"
  shows "length (calls_for c (fold schedule cs s)) = Suc (length (calls_for c s))
         \<and> store_get (store (fold schedule cs s)) c = Pending (next_token s c)
         \<and> next_token (fold schedule cs s) c = Suc (next_token s c)"
  using assms
proof (induction cs arbitrary: s)
  case Nil
  then show ?case by simp
next
  case (Cons x xs)
  show ?case
  proof (cases "x = c")
    case True
    then have "c \<notin> set xs" using Cons.prems by simp
    from fold_schedule_other [OF this, of "schedule c s"] True
    show ?thesis by (simp add: schedule_self)
  next
    case False
    then have c: "c \<in> set xs" "distinct xs" and ne: "c \<noteq> x" using Cons.prems by auto
    show ?thesis using Cons.IH [OF c, of "schedule x s"] by (simp add: schedule_other [OF ne])
  qed
qed

lemma distinct_grid:
  "distinct xs \<Longrightarrow> distinct ys \<Longrightarrow> distinct (concat (map (\<lambda>i. map (\<lambda>j. (i, j)) ys) xs))"
  by (induction xs) (auto simp: distinct_map inj_on_def)

lemma distinct_coords_in_range: "distinct (coords_in_range r)"
  unfolding coords_in_range_def by (rule distinct_grid) simp_all

lemma setWantedTileRange_fetches_once:
  assumes "c \<in> set (coords_in_range r)"
    and "is_Unfetched (store_get (store s) c) \<or> is_Failed (store_get (store s) c)"
  shows "length (calls_for c (setWantedTileRange r s)) = Suc (length (calls_for c s))"
    and "store_get (store (setWantedTileRange r s)) c = Pending (next_token s c)"
proof -
  let ?cs = "filter (\<lambda>c. is_Unfetched (store_get (store s) c) \<or> is_Failed (store_get (store s) c))
               (coords_in_range r)"
  have "c \<in> set ?cs" using assms by simp
  moreover have "distinct ?cs" by (simp add: distinct_coords_in_range)
  ultimately have "length (calls_for c (fold schedule ?cs (s\<lparr>wanted := Some r\<rparr>)))
           = Suc (length (calls_for c (s\<lparr>wanted := Some r\<rparr>)))
         \<and> store_get (store (fold schedule ?cs (s\<lparr>wanted := Some r\<rparr>))) c
           = Pending (next_token (s\<lparr>wanted := Some r\<rparr>) c)"
    using fold_schedule_once by blast
  then show "length (calls_for c (setWantedTileRange r s)) = Suc (length (calls_for c s))"
    and "store_get (store (setWantedTileRange r s)) c = Pending (next_token s c)"
    by (simp_all add: setWantedTileRange_def calls_for_def)
qed

lemma setWantedTileRange_keeps:
  assumes "\<not> is_Unfetched (store_get (store s) c)" and "\<not> is_Failed (store_get (store s) c)"
  shows "calls_for c (setWantedTileRange r s) = calls_for c s"
    and "store_get (store (setWantedTileRange r s)) c = store_get (store s) c"
    and "next_token (setWantedTileRange r s) c = next_token s c"
proof -
  let ?cs = "filter (\<lambda>c. is_Unfetched (store_get (store s) c) \<or> is_Failed (store_get (store s) c))
               (coords_in_range r)"
  have "c \<notin> set ?cs" using assms by simp
  from fold_schedule_other [OF this, of "s\<lparr>wanted := Some r\<rparr>"]
  show "calls_for c (setWantedTileRange r s) = calls_for c s"
    and "store_get (store (setWantedTileRange r s)) c = store_get (store s) c"
    and "next_token (setWantedTileRange r s) c = next_token s c"
    by (simp_all add: setWantedTileRange_def calls_for_def)
qed

lemma requests_while_pending:
  assumes "store_get (store s) c = Pending t"
  shows "calls_for c (fold handle_event (map SetWantedRange rs) s) = calls_for c s
         \<and> store_get (store (fold handle_event (map SetWantedRange rs) s)) c = Pending t"
  using assms
proof (induction rs arbitrary: s)
  case Nil
  then show ?case by simp
next
  case (Cons r rs)
  have p: "\<not> is_Unfetched (store_get (store s) c)" "\<not> is_Failed (store_get (store s) c)"
    using Cons.prems by simp_all
  have "store_get (store (setWantedTileRange r s)) c = Pending t"
    using setWantedTileRange_keeps(2) [OF p] Cons.prems by simp
  from Cons.IH [OF this] show ?case
    by (simp add: setWantedTileRange_keeps(1) [OF p])
qed

lemma concurrent_requests_one_call:
  assumes "is_Unfetched (store_get (store s) c) \<or> is_Failed (store_get (store s) c)"
    and "rs \<noteq> []" and "\<forall>r \<in> set rs. c \<in> set (coords_in_range r)"
  shows "length (calls_for c (run (map SetWantedRange rs) s)) = Suc (length (calls_for c s))"
    and "\<exists>t. store_get (store (run (map SetWantedRange rs) s)) c = Pending t"
proof -
  obtain r rs' where rs: "rs = r # rs'" using assms(2) by (cases rs) auto
  then have c: "c \<in> set (coords_in_range r)" using assms(3) by simp
  note first = setWantedTileRange_fetches_once [OF c assms(1)]
  from requests_while_pending [OF first(2), of rs']
  show "length (calls_for c (run (map SetWantedRange rs) s)) = Suc (length (calls_for c s))"
    and "\<exists>t. store_get (store (run (map SetWantedRange rs) s)) c = Pending t"
    by (simp_all add: run_def rs first(1))
qed

text \<open>
  C4. In every state the scheduler reaches from its initial state, a coordinate has at
  most one pending fetch: exactly one when its tile is \<open>Pending\<close>, none otherwise. And
  when a tile that is \<open>Unfetched\<close> (or \<open>Failed\<close>) is requested by any number \<open>N \<ge> 1\<close>
  of range requests in a row, exactly one network call is made for it.
\<close>

theorem one_pending_fetch_per_coordinate:
  assumes "s = run evs (init_scheduler a)"
  shows "length (pending_fetches c s) \<le> 1
     \<and> length (pending_fetches c s) = (if \<exists>t. store_get (store s) c = Pending t then 1 else 0)
     \<and> ((is_Unfetched (store_get (store s) c) \<or> is_Failed (store_get (store s) c))
          \<and> rs \<noteq> [] \<and> (\<forall>r \<in> set rs. c \<in> set (coords_in_range r))
         \<longrightarrow> length (calls_for c (run (map SetWantedRange rs) s)) = Suc (length (calls_for c s))
             \<and> length (pending_fetches c (run (map SetWantedRange rs) s)) = 1)"
proof -
  have inv: "scheduler_inv s" unfolding assms by (rule inv_run [OF inv_init])
  have 1: "length (pending_fetches c s) = (if \<exists>t. store_get (store s) c = Pending t then 1 else 0)"
    by (rule pending_fetches_count [OF inv])
  then have 2: "length (pending_fetches c s) \<le> 1" by simp
  have 3: "length (calls_for c (run (map SetWantedRange rs) s)) = Suc (length (calls_for c s))
             \<and> length (pending_fetches c (run (map SetWantedRange rs) s)) = 1"
    if h: "is_Unfetched (store_get (store s) c) \<or> is_Failed (store_get (store s) c)"
      "rs \<noteq> []" "\<forall>r \<in> set rs. c \<in> set (coords_in_range r)"
  proof -
    have "scheduler_inv (run (map SetWantedRange rs) s)" by (rule inv_run [OF inv])
    from pending_fetches_count [OF this, of c] concurrent_requests_one_call [OF h]
    show ?thesis by simp
  qed
  from 1 2 3 show ?thesis by blast
qed

lemma coords_tiles_0_01: "coords_in_range tiles_0_01 = [(0, 0), (0, 1)]"
  by (simp add: coords_in_range_def tiles_0_01_def upt_rec)

lemmas scheduler_eval = run_def init_scheduler_def setWantedTileRange_def fetch_completed_def
  revision_changed_def reconcile_def schedule_def store_get_def store_set_def store_reset_def
  calls_for_def pending_fetches_def coords_tiles_0_01

theorem one_pending_fetch_per_coordinate_witness:
  "length (calls_for (0, 0)
     (run (map SetWantedRange [tiles_0_01, tiles_0_01, tiles_0_01])
        (run [SetWantedRange tiles_0_01, FetchCompleted (0, 0) 0 (FetchError NetworkError)]
           (init_scheduler address_1 :: nat scheduler)))) = 2
   \<and> length (pending_fetches (0, 0)
     (run (map SetWantedRange [tiles_0_01, tiles_0_01, tiles_0_01])
        (run [SetWantedRange tiles_0_01, FetchCompleted (0, 0) 0 (FetchError NetworkError)]
           (init_scheduler address_1 :: nat scheduler)))) = 1"
  using one_pending_fetch_per_coordinate [of
      "run [SetWantedRange tiles_0_01, FetchCompleted (0, 0) 0 (FetchError NetworkError)]
           (init_scheduler address_1 :: nat scheduler)"
      "[SetWantedRange tiles_0_01, FetchCompleted (0, 0) 0 (FetchError NetworkError)]"
      address_1 "(0, 0)" "[tiles_0_01, tiles_0_01, tiles_0_01]"]
  by (simp add: scheduler_eval)

lemma schedule_stale:
  assumes "t < next_token s c" and "store_get (store s) c \<noteq> Pending t"
  shows "t < next_token (schedule x s) c \<and> store_get (store (schedule x s)) c \<noteq> Pending t"
proof (cases "x = c")
  case True
  then show ?thesis using assms by (simp add: schedule_self)
next
  case False
  then have "c \<noteq> x" by simp
  then show ?thesis using assms by (simp add: schedule_other)
qed

lemma fold_schedule_stale:
  assumes "t < next_token s c" and "store_get (store s) c \<noteq> Pending t"
  shows "t < next_token (fold schedule cs s) c
         \<and> store_get (store (fold schedule cs s)) c \<noteq> Pending t"
  using assms
proof (induction cs arbitrary: s)
  case Nil
  then show ?case by simp
next
  case (Cons x xs)
  from schedule_stale [OF Cons.prems, of x] Cons.IH [of "schedule x s"]
  show ?case by simp
qed

lemma step_stale:
  assumes "t < next_token s c" and "store_get (store s) c \<noteq> Pending t"
  shows "t < next_token (handle_event e s) c \<and> store_get (store (handle_event e s)) c \<noteq> Pending t"
proof (cases e)
  case (SetWantedRange r)
  have "t < next_token (s\<lparr>wanted := Some r\<rparr>) c"
    and "store_get (store (s\<lparr>wanted := Some r\<rparr>)) c \<noteq> Pending t"
    using assms by simp_all
  from fold_schedule_stale [OF this] show ?thesis
    by (simp add: SetWantedRange setWantedTileRange_def)
next
  case (FetchCompleted c' t' res)
  show ?thesis using assms
    by (cases res) (auto simp: FetchCompleted fetch_completed_def store_get_def store_set_def)
next
  case (RevisionChanged newer)
  show ?thesis
  proof (cases "newer \<noteq> revisionId (address s)")
    case True
    let ?s = "s\<lparr>address := (address s)\<lparr>revisionId := newer\<rparr>, store := store_reset (store s)\<rparr>"
    have a: "t < next_token ?s c" and b: "store_get (store ?s) c \<noteq> Pending t"
      using assms by (simp_all add: store_reset_def store_get_def)
    have "t < next_token (reconcile ?s) c \<and> store_get (store (reconcile ?s)) c \<noteq> Pending t"
    proof (cases "wanted ?s")
      case None
      then show ?thesis using a b by (simp add: reconcile_def)
    next
      case (Some r)
      from fold_schedule_stale [OF a b] show ?thesis by (simp add: reconcile_def Some)
    qed
    then show ?thesis using True by (simp add: RevisionChanged revision_changed_def)
  next
    case False
    then show ?thesis using assms by (simp add: RevisionChanged revision_changed_def)
  qed
qed

lemma run_stale:
  assumes "t < next_token s c" and "store_get (store s) c \<noteq> Pending t"
  shows "t < next_token (run evs s) c \<and> store_get (store (run evs s)) c \<noteq> Pending t"
  using assms unfolding run_def
proof (induction evs arbitrary: s)
  case Nil
  then show ?case by simp
next
  case (Cons e evs)
  from step_stale [OF Cons.prems, of e] Cons.IH [of "handle_event e s"]
  show ?case by simp
qed

lemma revision_changed_resets:
  assumes "newer \<noteq> revisionId (address s)"
  shows "store_get (store (revision_changed newer s)) c = Unfetched
         \<or> store_get (store (revision_changed newer s)) c = Pending (next_token s c)"
    and "next_token s c \<le> next_token (revision_changed newer s) c"
proof -
  let ?s = "s\<lparr>address := (address s)\<lparr>revisionId := newer\<rparr>, store := store_reset (store s)\<rparr>"
  have u: "store_get (store ?s) c = Unfetched" by (simp add: store_reset_def store_get_def)
  have r: "revision_changed newer s = reconcile ?s" using assms by (simp add: revision_changed_def)
  have "(store_get (store (reconcile ?s)) c = Unfetched
         \<or> store_get (store (reconcile ?s)) c = Pending (next_token s c))
        \<and> next_token s c \<le> next_token (reconcile ?s) c"
  proof (cases "wanted s")
    case None
    then show ?thesis using u by (simp add: reconcile_def)
  next
    case (Some r)
    let ?cs = "filter (\<lambda>c. is_Unfetched (store_get (store ?s) c)) (coords_in_range r)"
    have d: "distinct ?cs" by (simp add: distinct_coords_in_range)
    show ?thesis
    proof (cases "c \<in> set ?cs")
      case True
      from fold_schedule_once [OF True d, of ?s] show ?thesis
        by (simp add: reconcile_def Some)
    next
      case False
      from fold_schedule_other [OF False, of ?s] u show ?thesis
        by (simp add: reconcile_def Some)
    qed
  qed
  then show "store_get (store (revision_changed newer s)) c = Unfetched
         \<or> store_get (store (revision_changed newer s)) c = Pending (next_token s c)"
    and "next_token s c \<le> next_token (revision_changed newer s) c"
    by (simp_all add: r)
qed

text \<open>
  C5. Stale-result suppression. Take a fetch that was made in a reachable state. If the
  store is reset, by a change of the revisionId to a newer or an older one, before the
  fetch resolves, then, whatever happens afterwards, its completion leaves the scheduler,
  and so the store, as it is. The same
  holds once the tile no longer waits for that token (it was superseded by a newer request
  or already resolved). A completion changes the store only when the tile is \<open>Pending\<close>
  with the matching token, and then sets just that tile to \<open>Loaded\<close> or \<open>Failed\<close>.
\<close>

theorem stale_result_suppressed:
  assumes "s = run evs (init_scheduler a)" and "k \<in> set (calls s)"
    and "newer \<noteq> revisionId (address s)"
  shows "fetch_completed (call_coord k) (call_token k) res (run evs' (revision_changed newer s))
           = run evs' (revision_changed newer s)
     \<and> (store_get (store s) (call_coord k) \<noteq> Pending (call_token k)
          \<longrightarrow> fetch_completed (call_coord k) (call_token k) res (run evs' s) = run evs' s)
     \<and> (store_get (store s) (call_coord k) \<noteq> Pending (call_token k)
          \<longrightarrow> fetch_completed (call_coord k) (call_token k) res s = s)
     \<and> (store_get (store s) (call_coord k) = Pending (call_token k)
          \<longrightarrow> fetch_completed (call_coord k) (call_token k) res s
               = s\<lparr>store := (store s)(call_coord k \<mapsto> tile_of_result res)\<rparr>)"
proof -
  let ?c = "call_coord k" and ?t = "call_token k"
  have inv: "scheduler_inv s" unfolding assms(1) by (rule inv_run [OF inv_init])
  then have lt: "?t < next_token s ?c" using assms(2) by (simp add: scheduler_inv_def)
  have ne: "newer \<noteq> revisionId (address s)" by (rule assms(3))
  have "?t < next_token (revision_changed newer s) ?c"
    using lt revision_changed_resets(2) [OF ne, of ?c] by simp
  moreover have "store_get (store (revision_changed newer s)) ?c \<noteq> Pending ?t"
    using lt revision_changed_resets(1) [OF ne, of ?c] by auto
  ultimately have "store_get (store (run evs' (revision_changed newer s))) ?c \<noteq> Pending ?t"
    using run_stale by blast
  then have 1: "fetch_completed ?c ?t res (run evs' (revision_changed newer s))
           = run evs' (revision_changed newer s)"
    by (simp add: fetch_completed_def)
  have 2: "fetch_completed ?c ?t res (run evs' s) = run evs' s"
    if "store_get (store s) ?c \<noteq> Pending ?t"
    using run_stale [OF lt that, of evs'] by (simp add: fetch_completed_def)
  have 3: "fetch_completed ?c ?t res s = s" if "store_get (store s) ?c \<noteq> Pending ?t"
    using that by (simp add: fetch_completed_def)
  have 4: "fetch_completed ?c ?t res s = s\<lparr>store := (store s)(?c \<mapsto> tile_of_result res)\<rparr>"
    if "store_get (store s) ?c = Pending ?t"
    using that by (simp add: fetch_completed_def store_set_def)
  from 1 2 3 4 show ?thesis by blast
qed

text \<open>
  C6. Idempotence of reconciliation: applying a range whose tiles are all \<open>Loaded\<close>
  makes no network call and leaves the store unchanged; only the wanted range is recorded,
  and applying the range once more changes nothing further.
\<close>

theorem loaded_range_idempotent:
  assumes "\<forall>c \<in> set (coords_in_range r). is_Loaded (store_get (store s) c)"
  shows "calls (setWantedTileRange r s) = calls s
     \<and> store (setWantedTileRange r s) = store s
     \<and> setWantedTileRange r s = s\<lparr>wanted := Some r\<rparr>
     \<and> setWantedTileRange r (setWantedTileRange r s) = setWantedTileRange r s"
proof -
  have "\<not> (is_Unfetched (store_get (store s) c) \<or> is_Failed (store_get (store s) c))"
    if "c \<in> set (coords_in_range r)" for c
    using assms that by (cases "store_get (store s) c") auto
  then have "filter (\<lambda>c. is_Unfetched (store_get (store s) c) \<or> is_Failed (store_get (store s) c))
               (coords_in_range r) = []"
    by (simp add: filter_empty_conv)
  then have e: "setWantedTileRange r s = s\<lparr>wanted := Some r\<rparr>"
    by (simp add: setWantedTileRange_def)
  then have "setWantedTileRange r (setWantedTileRange r s) = setWantedTileRange r s"
    by (simp add: setWantedTileRange_def)
  with e show ?thesis by simp
qed



theorem stale_result_suppressed_witness:
  "fetch_completed (0, 0) 0 (TileData [1 :: nat] 1 1)
       (run [SetWantedRange tiles_0_01]
          (revision_changed 8 (run [SetWantedRange tiles_0_01] (init_scheduler address_1))))
     = run [SetWantedRange tiles_0_01]
          (revision_changed 8 (run [SetWantedRange tiles_0_01] (init_scheduler address_1)))
   \<and> store_get (store (run [SetWantedRange tiles_0_01]
          (revision_changed 8 (run [SetWantedRange tiles_0_01] (init_scheduler address_1))
             :: nat scheduler))) (0, 0) = Pending 1"
  using stale_result_suppressed [of
      "run [SetWantedRange tiles_0_01] (init_scheduler address_1)"
      "[SetWantedRange tiles_0_01]" address_1
      "\<lparr>call_address = address_1, call_coord = (0, 0), call_token = 0\<rparr>"
      8 "TileData [1 :: nat] 1 1" "[SetWantedRange tiles_0_01]"]
  by (simp add: scheduler_eval address_1_def)

theorem loaded_range_idempotent_witness:
  "calls (setWantedTileRange tiles_0_01 loaded_state) = calls loaded_state
   \<and> length (calls (setWantedTileRange tiles_0_01 loaded_state)) = 2
   \<and> store_get (store (setWantedTileRange tiles_0_01 loaded_state)) (0, 1) = Loaded [2] 1 1"
  using loaded_range_idempotent [of tiles_0_01 loaded_state]
  by (simp add: loaded_state_def scheduler_eval)


section \<open>Properties of \<open>updateDuplicateModule\<close>\<close>

lemma split_comma_nonempty: "split_comma s \<noteq> []"
  by (induction s) (auto split: list.splits)

lemma split_comma_append:
  "split_comma (v @ CHR '','' # w) = split_comma v @ split_comma w"
proof (induction v)
  case Nil
  then show ?case by simp
next
  case (Cons x v)
  then show ?case using split_comma_nonempty [of v]
    by (cases "split_comma v") auto
qed

lemma split_comma_no_comma: "CHR '','' \<notin> set s \<Longrightarrow> split_comma s = [s]"
  by (induction s) auto

lemma split_comma_pieces: "w \<in> set (split_comma s) \<Longrightarrow> CHR '','' \<notin> set w"
proof (induction s arbitrary: w)
  case Nil
  then show ?case by simp
next
  case (Cons x s)
  then show ?case
    by (cases "split_comma s") (auto split: if_splits)
qed

text \<open>
  C10. Let the step's \<open>colnames\<close> parameter be found. If its value is non-empty and
  already has the column name among its comma-separated entries, nothing is dispatched
  (the list of dispatched actions, and with it the parameter value, is unchanged). If the
  value is non-empty without that entry, one action is dispatched that sets \<open>colnames\<close>
  to the value with a comma and the name appended; if the value is empty, one action sets
  it to the name. After an append of a name without a comma the name is among the entries,
  so a repeated call dispatches nothing.
\<close>

theorem updateDuplicateModule_cases:
  assumes "findParam wfm ''colnames'' = Some p"
  shows "(pv_value p \<noteq> [] \<and> name \<in> set (split_comma (pv_value p))
          \<longrightarrow> updateDuplicateModule findParam wfm (name # rest) dispatched = Inr dispatched)
     \<and> (pv_value p \<noteq> [] \<and> name \<notin> set (split_comma (pv_value p))
          \<longrightarrow> updateDuplicateModule findParam wfm (name # rest) dispatched
              = Inr (dispatched @ [SetParamValueActionByIdName (wfm_id wfm) ''colnames''
                                     (JSString (pv_value p @ '','' @ name))]))
     \<and> (pv_value p = []
          \<longrightarrow> updateDuplicateModule findParam wfm (name # rest) dispatched
              = Inr (dispatched @ [SetParamValueActionByIdName (wfm_id wfm) ''colnames''
                                     (JSString name)]))
     \<and> (CHR '','' \<notin> set name \<longrightarrow> name \<in> set (split_comma (pv_value p @ '','' @ name)))"
  using assms
  by (simp add: updateDuplicateModule_def store_dispatch_def split_comma_append split_comma_no_comma)

theorem updateDuplicateModule_cases_witness:
  "updateDuplicateModule find_colnames_ab \<lparr>wfm_id = 3\<rparr> [''b''] [] = Inr []
   \<and> updateDuplicateModule find_colnames_ab \<lparr>wfm_id = 3\<rparr> [''c''] []
       = Inr [SetParamValueActionByIdName 3 ''colnames'' (JSString ''a,b,c'')]"
  using updateDuplicateModule_cases [of find_colnames_ab "\<lparr>wfm_id = 3\<rparr>"
      "\<lparr>pv_id = 5, pv_value = ''a,b''\<rparr>" "''b''" "[]" "[]"]
    updateDuplicateModule_cases [of find_colnames_ab "\<lparr>wfm_id = 3\<rparr>"
      "\<lparr>pv_id = 5, pv_value = ''a,b''\<rparr>" "''c''" "[]" "[]"]
  by (simp add: find_colnames_ab_def)

section \<open>Properties of \<open>OutputPane\<close>\<close>

text \<open>
  What \<open>stepForTable\<close> selects: \<open>stepBeforeError\<close> when that prop is present,
  otherwise the selected step when its status is not \<open>error\<close>, otherwise \<open>null\<close>. Its
  status is not \<open>error\<close> as long as the \<open>stepBeforeError\<close> it is given is not; and
  the \<open>stepBeforeError\<close> that \<open>mapStateToProps\<close> builds carries the status of the step
  before the selected one, whatever it is.
\<close>

lemma stepForTable_cases:
  "stepForTable props =
     (if pr_stepBeforeError props \<noteq> None then map_option InputOfError (pr_stepBeforeError props)
      else if pr_step props \<noteq> None \<and> map_option sel_status (pr_step props) \<noteq> Some (Some ''error'')
      then map_option SelectedStep (pr_step props)
      else None)"
  by (auto simp: stepForTable_def split: option.splits)

lemma stepForTable_not_error:
  assumes "\<forall>b. pr_stepBeforeError props = Some b \<longrightarrow> sbe_status b \<noteq> Some ''error''"
    and "stepForTable props = Some x"
  shows "step_for_table_status x \<noteq> Some ''error''"
  using assms by (auto simp: stepForTable_def split: option.splits if_splits)

lemma mapStateToProps_stepBeforeError:
  assumes "mapStateToProps selW selR state = Inr props" and "pr_stepBeforeError props = Some b"
  shows "\<exists>tab n lastGood. state_tabs state (selectedPane_tabSlug state) = Some tab
           \<and> tab_selected_step_position tab = Some (Suc n)
           \<and> n < length (tab_step_ids tab)
           \<and> state_steps state (tab_step_ids tab ! n) = Some lastGood
           \<and> sbe_status b = stepStatus (Some lastGood)"
proof -
  obtain tab where tab: "state_tabs state (selectedPane_tabSlug state) = Some tab"
    using assms(1) by (auto simp: mapStateToProps_def split: option.splits)
  show ?thesis
  proof (cases "tab_selected_step_position tab")
    case None
    then show ?thesis using assms tab
      by (auto simp: mapStateToProps_def Let_def array_get_def split: option.splits if_splits)
  next
    case (Some m)
    show ?thesis
    proof (cases m)
      case 0
      then show ?thesis using assms tab Some
        by (auto simp: mapStateToProps_def Let_def split: option.splits if_splits)
    next
      case (Suc n)
      then show ?thesis using assms tab Some
        by (auto simp: mapStateToProps_def Let_def array_get_def split: option.splits if_splits)
    qed
  qed
qed

text \<open>
  C9 fails on the code. In a state whose selected step and the step before it both have
  \<open>output_status\<close> \<open>error\<close> and are not busy, \<open>mapStateToProps\<close> builds a
  \<open>stepBeforeError\<close> with status \<open>error\<close>, and \<open>stepForTable\<close> returns it: the step
  selected for the table has status \<open>error\<close>.
\<close>

theorem stepForTable_error_from_mapStateToProps:
  "(case mapStateToProps (\<lambda>s. WorkflowId 1) (\<lambda>s. False) two_errors_state of
      Inl e \<Rightarrow> None
    | Inr props \<Rightarrow> map_option step_for_table_status (stepForTable props))
   = Some (Some ''error'')"
  by (simp add: mapStateToProps_def two_errors_state_def error_step_def stepStatus_def
      array_get_def stepForTable_def Let_def)

section \<open>Properties of \<open>groupAutofetches\<close>\<close>

































end
